theory Spec2Isabelle
  imports Main
begin

section \<open>Turn-taking arbiter (server.py) and participant (client.py)\<close>

subsection \<open>Python values used by both programs\<close>

text \<open>
  Exceptions that the socket calls and the payload parsing can raise.
  \<open>ValueError\<close> is what the tuple unpacking of line 23 raises,
  \<open>OtherError\<close> stands for any further exception of \<open>sendall\<close>, \<open>recv\<close> or
  \<open>decode\<close> (none of them is named by an \<open>except\<close> clause).
\<close>

datatype exn = ConnectionResetError | BrokenPipeError | ValueError | OtherError

text \<open>The outcome of a socket call: it raises (\<open>Inl\<close>) or returns (\<open>Inr\<close>).\<close>

type_synonym 'a io = "exn + 'a"

text \<open>\<open>str(n)\<close> of a Python integer, as the f-strings render it.\<close>

definition digit_char :: "nat \<Rightarrow> char" where
  "digit_char d = ''0123456789'' ! d"

function str_nat :: "nat \<Rightarrow> string" where
  "str_nat n = (if n < 10 then [digit_char n] else str_nat (n div 10) @ [digit_char (n mod 10)])"
  by pat_completeness auto
termination
  by (relation "measure (\<lambda>n. n)") auto

declare str_nat.simps [simp del]

definition str_int :: "int \<Rightarrow> string" where
  "str_int i = (if i < 0 then CHR ''-'' # str_nat (nat (- i)) else str_nat (nat i))"

text \<open>\<open>data.split(sep)\<close> for a one-character separator: one more piece than separators.\<close>

fun split_sep :: "char \<Rightarrow> string \<Rightarrow> string list" where
  "split_sep c [] = [[]]"
| "split_sep c (x # xs) =
     (if x = c then [] # split_sep c xs
      else (case split_sep c xs of [] \<Rightarrow> [[x]] | p # ps \<Rightarrow> (x # p) # ps))"

text \<open>
  \<open>client_name, number = data.split(":")\<close> (server.py line 23): the unpacking needs
  exactly two pieces and raises \<open>ValueError\<close> otherwise.
\<close>

definition unpack_pair :: "string \<Rightarrow> (string \<times> string) io" where
  "unpack_pair data =
     (case split_sep (CHR '':'') data of
        [client_name, number] \<Rightarrow> Inr (client_name, number)
      | _ \<Rightarrow> Inl ValueError)"

subsection \<open>server.py\<close>

text \<open>
  Where a handler thread is: not started, at the top of its inner loop (outside the
  \<open>with lock\<close> block: waiting for the lock or sleeping), inside the block and blocked
  in \<open>conn.recv\<close> after it sent GO, or finished: by the \<open>return\<close> of line 21, by the
  \<open>break\<close> of line 34, or by an exception no clause catches.
\<close>

datatype hstatus = NotStarted | LoopTop | AwaitReply | Returned | Disconnected | Died exn

text \<open>Where \<open>server()\<close> is: blocked in its first or second \<open>accept\<close>, or past both.\<close>

datatype main_pc = Accept1 | Accept2 | MainDone

text \<open>
  The process state: the globals \<open>turn\<close> and \<open>lock\<close> (the identity of the handler
  holding it), the main thread, the handler threads by \<open>client_id\<close> with the \<open>addr\<close>
  each was given (as printed), the lines printed, the signals \<open>sendall\<close> delivered
  (with the identity of the session), and the identities whose message reached line 26.
\<close>

record server_state =
  turn :: int
  lock :: "int option"
  main :: main_pc
  hstatus :: "int \<Rightarrow> hstatus"
  haddr :: "int \<Rightarrow> string"
  stdout :: "string list"
  wire :: "(int \<times> string) list"
  accepted :: "int list"

text \<open>
  The state in which \<open>server()\<close> reaches its first \<open>accept\<close>: \<open>bind\<close> and
  \<open>listen\<close> have succeeded and line 41 has printed.
\<close>

definition init_state :: server_state where
  "init_state =
     \<lparr> turn = 1, lock = None, main = Accept1, hstatus = (\<lambda>_. NotStarted),
       haddr = (\<lambda>_. []), stdout = [''Server listening on 0.0.0.0:5001''],
       wire = [], accepted = [] \<rparr>"

text \<open>
  An exception inside the \<open>try\<close> of a handler (lines 32 to 34). Leaving the
  \<open>with lock\<close> block releases the lock; the two named exceptions print and \<open>break\<close>,
  any other one ends the thread.
\<close>

definition caught :: "exn \<Rightarrow> bool" where
  "caught e = (e = ConnectionResetError \<or> e = BrokenPipeError)"

definition on_exception :: "int \<Rightarrow> exn \<Rightarrow> server_state \<Rightarrow> server_state" where
  "on_exception client_id e s =
     (if caught e
      then s\<lparr> lock := None,
              stdout := stdout s @
                [''Client '' @ str_int client_id @ '' ('' @ haddr s client_id @ '') disconnected.''],
              hstatus := (hstatus s)(client_id := Disconnected) \<rparr>
      else s\<lparr> lock := None, hstatus := (hstatus s)(client_id := Died e) \<rparr>)"

text \<open>
  Lines 16 to 18 and 27 to 30: the handler takes the lock, compares \<open>turn\<close> and sends
  its signal; \<open>r\<close> is the outcome of that \<open>sendall\<close>. After GO it stays in the block,
  in \<open>recv\<close>; after WAIT it leaves the block and sleeps.
\<close>

definition poll :: "int \<Rightarrow> unit io \<Rightarrow> server_state \<Rightarrow> server_state" where
  "poll client_id r s =
     (if turn s = client_id then
        (case r of
           Inl e \<Rightarrow> on_exception client_id e s
         | Inr _ \<Rightarrow> s\<lparr> lock := Some client_id, wire := wire s @ [(client_id, ''GO'')],
                      hstatus := (hstatus s)(client_id := AwaitReply) \<rparr>)
      else
        (case r of
           Inl e \<Rightarrow> on_exception client_id e s
         | Inr _ \<Rightarrow> s\<lparr> wire := wire s @ [(client_id, ''WAIT'')] \<rparr>))"

text \<open>
  Lines 19 to 26: \<open>r\<close> is the outcome of \<open>conn.recv(1024).decode()\<close>. An empty read
  returns, a payload is unpacked, printed and switches the turn.
\<close>

definition reply :: "int \<Rightarrow> string io \<Rightarrow> server_state \<Rightarrow> server_state" where
  "reply client_id r s =
     (case r of
        Inl e \<Rightarrow> on_exception client_id e s
      | Inr data \<Rightarrow>
          if data = [] then s\<lparr> lock := None, hstatus := (hstatus s)(client_id := Returned) \<rparr>
          else
            (case unpack_pair data of
               Inl e \<Rightarrow> on_exception client_id e s
             | Inr (client_name, number) \<Rightarrow>
                 s\<lparr> turn := (if client_id = 1 then 2 else 1),
                    lock := None,
                    stdout := stdout s @ [client_name @ '' sent: '' @ number],
                    accepted := accepted s @ [client_id],
                    hstatus := (hstatus s)(client_id := LoopTop) \<rparr>))"

text \<open>
  \<open>server()\<close>, lines 43 to 49: an \<open>accept\<close> that returns prints and starts the handler
  of the next identity. After the second one the function ends and accepts nothing more.
\<close>

definition connect :: "string \<Rightarrow> server_state \<Rightarrow> server_state" where
  "connect addr s =
     (case main s of
        Accept1 \<Rightarrow> s\<lparr> main := Accept2, stdout := stdout s @ [''Client1 '' @ addr @ '' connected.''],
                      hstatus := (hstatus s)(1 := LoopTop), haddr := (haddr s)(1 := addr) \<rparr>
      | Accept2 \<Rightarrow> s\<lparr> main := MainDone, stdout := stdout s @ [''Client2 '' @ addr @ '' connected.''],
                      hstatus := (hstatus s)(2 := LoopTop), haddr := (haddr s)(2 := addr) \<rparr>
      | MainDone \<Rightarrow> s)"

text \<open>
  What can happen next in the process: a connection arrives, a handler gets the lock
  and runs up to its \<open>sendall\<close>, or the \<open>recv\<close> of the handler in the block comes back.
  A thread that cannot move (no such thread, lock taken, not in \<open>recv\<close>) leaves the
  state as it is.
\<close>

datatype event = Connect string | Poll int "unit io" | Reply int "string io"

fun step :: "event \<Rightarrow> server_state \<Rightarrow> server_state" where
  "step (Connect addr) s = connect addr s"
| "step (Poll client_id r) s =
     (if hstatus s client_id = LoopTop \<and> lock s = None then poll client_id r s else s)"
| "step (Reply client_id r) s =
     (if hstatus s client_id = AwaitReply then reply client_id r s else s)"

definition run :: "event list \<Rightarrow> server_state \<Rightarrow> server_state" where
  "run evs s = fold step evs s"

text \<open>The addresses of the connections that arrive, in order.\<close>

fun arrivals :: "event list \<Rightarrow> string list" where
  "arrivals [] = []"
| "arrivals (Connect addr # evs) = addr # arrivals evs"
| "arrivals (_ # evs) = arrivals evs"

text \<open>A handler thread that has ended, whichever way.\<close>

definition finished :: "hstatus \<Rightarrow> bool" where
  "finished h = (case h of Returned \<Rightarrow> True | Disconnected \<Rightarrow> True | Died e \<Rightarrow> True | _ \<Rightarrow> False)"

text \<open>A read that reaches line 26: a payload, not empty, of exactly two pieces.\<close>

definition accepts :: "string io \<Rightarrow> bool" where
  "accepts r =
     (case r of Inl e \<Rightarrow> False
      | Inr data \<Rightarrow> data \<noteq> [] \<and> length (split_sep (CHR '':'') data) = 2)"

text \<open>The sequence 1, 2, 1, 2, ... of a given length.\<close>

definition alternation :: "nat \<Rightarrow> int list" where
  "alternation n = map (\<lambda>k. if even k then 1 else 2) [0..<n]"

subsection \<open>client.py\<close>

text \<open>
  The local state of \<open>client()\<close>: \<open>current_number\<close>, with what the loop did so far:
  the messages given to \<open>sendall\<close>, the lines printed, and the total of the
  \<open>time.sleep\<close> calls in milliseconds.
\<close>

record client_state =
  current_number :: int
  outbox :: "string list"
  console :: "string list"
  slept :: nat

definition client_init :: "int \<Rightarrow> client_state" where
  "client_init start_number =
     \<lparr> current_number = start_number, outbox = [], console = [], slept = 0 \<rparr>"

text \<open>
  One pass of the loop of lines 12 to 23: \<open>rr\<close> is the outcome of
  \<open>recv(1024).decode()\<close>, \<open>sr\<close> the outcome of the \<open>sendall\<close> of line 17 when it is
  reached. No exception is caught, so one ends the thread (\<open>Inl\<close>); \<open>Inr\<close> is the
  state with which the loop goes on to its next read.
\<close>

definition client_iter :: "string \<Rightarrow> string io \<Rightarrow> unit io \<Rightarrow> client_state \<Rightarrow> client_state io" where
  "client_iter client_name rr sr cs =
     (case rr of
        Inl e \<Rightarrow> Inl e
      | Inr response \<Rightarrow>
          if response = ''GO'' then
            (case sr of
               Inl e \<Rightarrow> Inl e
             | Inr _ \<Rightarrow>
                 Inr (cs\<lparr> outbox := outbox cs @ [client_name @ '':'' @ str_int (current_number cs)],
                          console := console cs @
                            [client_name @ '' sent: '' @ str_int (current_number cs)],
                          current_number := current_number cs + 2,
                          slept := slept cs + 1000 \<rparr>))
          else if response = ''WAIT'' then Inr (cs\<lparr> slept := slept cs + 100 \<rparr>)
          else Inr cs)"

text \<open>The loop over the outcomes of its successive socket calls.\<close>

fun client_loop :: "string \<Rightarrow> (string io \<times> unit io) list \<Rightarrow> client_state \<Rightarrow> client_state io" where
  "client_loop client_name [] cs = Inr cs"
| "client_loop client_name ((rr, sr) # rest) cs =
     (case client_iter client_name rr sr cs of
        Inl e \<Rightarrow> Inl e
      | Inr cs' \<Rightarrow> client_loop client_name rest cs')"

subsection \<open>Server and clients together\<close>













subsection \<open>Invariants of the server\<close>

definition inv_ids :: "server_state \<Rightarrow> bool" where
  "inv_ids s = (\<forall>c. hstatus s c \<noteq> NotStarted \<longrightarrow> c = 1 \<or> c = 2)"

definition inv_lock :: "server_state \<Rightarrow> bool" where
  "inv_lock s = ((\<forall>c. hstatus s c = AwaitReply \<longrightarrow> lock s = Some c \<and> turn s = c) \<and>
     (\<forall>c. lock s = Some c \<longrightarrow> hstatus s c = AwaitReply))"

definition inv_turn :: "server_state \<Rightarrow> bool" where
  "inv_turn s = (turn s = (if even (length (accepted s)) then 1 else 2) \<and>
     accepted s = alternation (length (accepted s)))"

definition inv_main :: "server_state \<Rightarrow> bool" where
  "inv_main s =
     ((hstatus s 1 = NotStarted) = (main s = Accept1) \<and>
      (hstatus s 2 = NotStarted) = (main s \<noteq> MainDone) \<and>
      (hstatus s 2 = NotStarted \<longrightarrow> length (accepted s) \<le> 1))"

definition inv :: "server_state \<Rightarrow> bool" where
  "inv s = (inv_ids s \<and> inv_lock s \<and> inv_turn s \<and> inv_main s)"

text \<open>
  How far \<open>server()\<close> is, and the addresses its handlers got, from the connections
  that arrived.
\<close>

definition accept_inv :: "event list \<Rightarrow> server_state \<Rightarrow> bool" where
  "accept_inv evs s =
     (main s = (if arrivals evs = [] then Accept1
                else if length (arrivals evs) = 1 then Accept2 else MainDone) \<and>
      (arrivals evs \<noteq> [] \<longrightarrow> haddr s 1 = arrivals evs ! 0) \<and>
      (2 \<le> length (arrivals evs) \<longrightarrow> haddr s 2 = arrivals evs ! 1))"

subsection \<open>Invariant of server and clients together\<close>








section \<open>Properties\<close>

subsection \<open>What each operation leaves in each field\<close>

lemma on_exception_fields:
  "turn (on_exception c e s) = turn s"
  "lock (on_exception c e s) = None"
  "main (on_exception c e s) = main s"
  "accepted (on_exception c e s) = accepted s"
  "wire (on_exception c e s) = wire s"
  "haddr (on_exception c e s) = haddr s"
  "hstatus (on_exception c e s) = (hstatus s)(c := if caught e then Disconnected else Died e)"
  by (simp_all add: on_exception_def caught_def)

lemma poll_fields:
  "turn (poll c r s) = turn s"
  "main (poll c r s) = main s"
  "accepted (poll c r s) = accepted s"
  "haddr (poll c r s) = haddr s"
  "lock (poll c r s) = (case r of Inl e \<Rightarrow> None | Inr u \<Rightarrow> if turn s = c then Some c else lock s)"
  "hstatus (poll c r s) =
     (case r of Inl e \<Rightarrow> (hstatus s)(c := if caught e then Disconnected else Died e)
      | Inr u \<Rightarrow> if turn s = c then (hstatus s)(c := AwaitReply) else hstatus s)"
  "wire (poll c r s) =
     (case r of Inl e \<Rightarrow> wire s | Inr u \<Rightarrow> wire s @ [(c, if turn s = c then ''GO'' else ''WAIT'')])"
  by (simp_all add: poll_def on_exception_fields split: sum.split)

lemma unpack_pair_cases:
  "length (split_sep (CHR '':'') data) = 2 \<Longrightarrow> \<exists>a b. unpack_pair data = Inr (a, b)"
  "length (split_sep (CHR '':'') data) \<noteq> 2 \<Longrightarrow> unpack_pair data = Inl ValueError"
  by (auto simp: unpack_pair_def split: list.splits)

lemma reply_accepts:
  assumes "accepts r"
  shows "turn (reply c r s) = (if c = 1 then 2 else 1)"
    "lock (reply c r s) = None"
    "main (reply c r s) = main s"
    "accepted (reply c r s) = accepted s @ [c]"
    "wire (reply c r s) = wire s"
    "haddr (reply c r s) = haddr s"
    "hstatus (reply c r s) = (hstatus s)(c := LoopTop)"
proof -
  from assms obtain data where r: "r = Inr data" "data \<noteq> []" "length (split_sep (CHR '':'') data) = 2"
    by (auto simp: accepts_def split: sum.splits)
  then obtain a b where "unpack_pair data = Inr (a, b)" using unpack_pair_cases(1) by blast
  with r show "turn (reply c r s) = (if c = 1 then 2 else 1)"
    "lock (reply c r s) = None"
    "main (reply c r s) = main s"
    "accepted (reply c r s) = accepted s @ [c]"
    "wire (reply c r s) = wire s"
    "haddr (reply c r s) = haddr s"
    "hstatus (reply c r s) = (hstatus s)(c := LoopTop)"
    by (simp_all add: reply_def)
qed

lemma reply_rejects:
  assumes "\<not> accepts r"
  shows "turn (reply c r s) = turn s"
    "lock (reply c r s) = None"
    "main (reply c r s) = main s"
    "accepted (reply c r s) = accepted s"
    "wire (reply c r s) = wire s"
    "haddr (reply c r s) = haddr s"
    "finished (hstatus (reply c r s) c)"
    "\<And>d. d \<noteq> c \<Longrightarrow> hstatus (reply c r s) d = hstatus s d"
proof -
  consider e where "r = Inl e" | "r = Inr []"
    | data where "r = Inr data" "data \<noteq> []" "unpack_pair data = Inl ValueError"
    using assms unpack_pair_cases(2) by (cases r) (auto simp: accepts_def)
  then have "turn (reply c r s) = turn s \<and> lock (reply c r s) = None \<and> main (reply c r s) = main s
     \<and> accepted (reply c r s) = accepted s \<and> wire (reply c r s) = wire s \<and> haddr (reply c r s) = haddr s
     \<and> finished (hstatus (reply c r s) c) \<and> (\<forall>d. d \<noteq> c \<longrightarrow> hstatus (reply c r s) d = hstatus s d)"
    by cases (simp_all add: reply_def on_exception_fields finished_def)
  then show "turn (reply c r s) = turn s"
    "lock (reply c r s) = None"
    "main (reply c r s) = main s"
    "accepted (reply c r s) = accepted s"
    "wire (reply c r s) = wire s"
    "haddr (reply c r s) = haddr s"
    "finished (hstatus (reply c r s) c)"
    "\<And>d. d \<noteq> c \<Longrightarrow> hstatus (reply c r s) d = hstatus s d"
    by simp_all
qed


lemma alternation_Suc: "alternation (Suc n) = alternation n @ [if even n then 1 else 2]"
  by (simp add: alternation_def)

lemma step_cases [case_names idle connect poll reply]:
  obtains "step e s = s"
  | addr where "e = Connect addr" "step e s = connect addr s"
  | c r where "e = Poll c r" "hstatus s c = LoopTop" "lock s = None" "step e s = poll c r s"
  | c r where "e = Reply c r" "hstatus s c = AwaitReply" "step e s = reply c r s"
proof (cases e)
  case (Connect addr)
  then show ?thesis using that(2) by simp
next
  case (Poll c r)
  then show ?thesis using that(1,3) by (cases "hstatus s c = LoopTop \<and> lock s = None") simp_all
next
  case (Reply c r)
  then show ?thesis using that(1,4) by (cases "hstatus s c = AwaitReply") simp_all
qed

lemma connect_fields:
  "turn (connect a s) = turn s" "lock (connect a s) = lock s"
  "accepted (connect a s) = accepted s" "wire (connect a s) = wire s"
  by (simp_all add: connect_def split: main_pc.split)

lemma inv_ids_step: "inv_ids s \<Longrightarrow> inv_ids (step e s)"
proof (cases e s rule: step_cases)
  case idle
  then show "inv_ids s \<Longrightarrow> ?thesis" by simp
next
  case (connect addr)
  then show "inv_ids s \<Longrightarrow> ?thesis" by (auto simp add: inv_ids_def connect_def split: main_pc.split)
next
  case (poll c r)
  then show "inv_ids s \<Longrightarrow> ?thesis"
    by (cases r) (auto simp add: inv_ids_def poll_fields)
next
  case (reply c r)
  assume i: "inv_ids s"
  show ?thesis
  proof (cases "accepts r")
    case True
    then show ?thesis using reply i by (auto simp add: inv_ids_def reply_accepts)
  next
    case False
    have "hstatus (reply c r s) d \<noteq> NotStarted \<Longrightarrow> d = 1 \<or> d = 2" for d
      using reply_rejects(8) [OF False, of d c s] i reply(2)
      by (cases "d = c") (auto simp: inv_ids_def)
    then show ?thesis using reply by (simp add: inv_ids_def)
  qed
qed


lemma inv_lockD:
  "inv_lock s \<Longrightarrow> hstatus s c = AwaitReply \<Longrightarrow> lock s = Some c \<and> turn s = c"
  "inv_lock s \<Longrightarrow> lock s = Some c \<Longrightarrow> hstatus s c = AwaitReply"
  unfolding inv_lock_def by blast+

lemma inv_lockI:
  assumes "\<And>c. hstatus s c = AwaitReply \<Longrightarrow> lock s = Some c \<and> turn s = c"
    and "\<And>c. lock s = Some c \<Longrightarrow> hstatus s c = AwaitReply"
  shows "inv_lock s"
  unfolding inv_lock_def using assms by blast

lemma inv_lock_free: "inv_lock s \<Longrightarrow> lock s = None \<Longrightarrow> hstatus s d \<noteq> AwaitReply"
  using inv_lockD(1) [of s d] by auto

lemma inv_lock_step:
  assumes "inv_lock s" "inv_main s"
  shows "inv_lock (step e s)"
proof (cases e s rule: step_cases)
  case idle
  then show ?thesis using assms(1) by simp
next
  case (connect addr)
  show ?thesis
  proof (cases "main s")
    case Accept1
    then have n: "hstatus s 1 = NotStarted" using assms(2) by (simp add: inv_main_def)
    have f: "turn (connect addr s) = turn s" "lock (connect addr s) = lock s"
      "hstatus (connect addr s) = (hstatus s)(1 := LoopTop)"
      using Accept1 by (simp_all add: connect_def)
    have "inv_lock (connect addr s)"
    proof (rule inv_lockI)
      fix c assume "hstatus (connect addr s) c = AwaitReply"
      then have "hstatus s c = AwaitReply" unfolding f by (cases "c = 1") simp_all
      then show "lock (connect addr s) = Some c \<and> turn (connect addr s) = c"
        unfolding f by (rule inv_lockD(1) [OF assms(1)])
    next
      fix c assume "lock (connect addr s) = Some c"
      then have h: "hstatus s c = AwaitReply" unfolding f by (rule inv_lockD(2) [OF assms(1)])
      then have "c \<noteq> 1" using n by auto
      then show "hstatus (connect addr s) c = AwaitReply" unfolding f using h by simp
    qed
    then show ?thesis using connect by simp
  next
    case Accept2
    then have n: "hstatus s 2 = NotStarted" using assms(2) by (simp add: inv_main_def)
    have f: "turn (connect addr s) = turn s" "lock (connect addr s) = lock s"
      "hstatus (connect addr s) = (hstatus s)(2 := LoopTop)"
      using Accept2 by (simp_all add: connect_def)
    have "inv_lock (connect addr s)"
    proof (rule inv_lockI)
      fix c assume "hstatus (connect addr s) c = AwaitReply"
      then have "hstatus s c = AwaitReply" unfolding f by (cases "c = 2") simp_all
      then show "lock (connect addr s) = Some c \<and> turn (connect addr s) = c"
        unfolding f by (rule inv_lockD(1) [OF assms(1)])
    next
      fix c assume "lock (connect addr s) = Some c"
      then have h: "hstatus s c = AwaitReply" unfolding f by (rule inv_lockD(2) [OF assms(1)])
      then have "c \<noteq> 2" using n by auto
      then show "hstatus (connect addr s) c = AwaitReply" unfolding f using h by simp
    qed
    then show ?thesis using connect by simp
  next
    case MainDone
    then show ?thesis using connect assms(1) by (simp add: connect_def)
  qed
next
  case (poll c r)
  have none: "hstatus s d \<noteq> AwaitReply" for d
    by (rule inv_lock_free [OF assms(1) poll(3)])
  have "inv_lock (poll c r s)"
  proof (cases r)
    case (Inl e)
    show ?thesis
    proof (rule inv_lockI)
      fix d assume "hstatus (poll c r s) d = AwaitReply"
      then have False using Inl none [of d] by (cases "d = c") (simp_all add: poll_fields split: if_splits)
      then show "lock (poll c r s) = Some d \<and> turn (poll c r s) = d" ..
    next
      fix d assume "lock (poll c r s) = Some d"
      then show "hstatus (poll c r s) d = AwaitReply" using Inl by (simp add: poll_fields)
    qed
  next
    case (Inr u)
    show ?thesis
    proof (rule inv_lockI)
      fix d assume "hstatus (poll c r s) d = AwaitReply"
      then have "d = c \<and> turn s = c" using Inr none [of d]
        by (cases "d = c"; cases "turn s = c") (simp_all add: poll_fields)
      then show "lock (poll c r s) = Some d \<and> turn (poll c r s) = d"
        using Inr by (simp add: poll_fields)
    next
      fix d assume "lock (poll c r s) = Some d"
      then have "d = c \<and> turn s = c" using Inr poll(3)
        by (cases "turn s = c") (simp_all add: poll_fields)
      then show "hstatus (poll c r s) d = AwaitReply" using Inr by (simp add: poll_fields)
    qed
  qed
  then show ?thesis using poll by simp
next
  case (reply c r)
  have lk: "lock s = Some c" using inv_lockD(1) [OF assms(1) reply(2)] by simp
  have others: "hstatus s d \<noteq> AwaitReply" if "d \<noteq> c" for d
  proof
    assume "hstatus s d = AwaitReply"
    then have "lock s = Some d" using inv_lockD(1) [OF assms(1)] by blast
    then show False using lk that by simp
  qed
  have nolock: "lock (reply c r s) = None"
    by (cases "accepts r") (simp_all add: reply_accepts reply_rejects)
  have "hstatus (reply c r s) d \<noteq> AwaitReply" for d
  proof (cases "accepts r")
    case True
    then show ?thesis using others [of d] by (cases "d = c") (simp_all add: reply_accepts)
  next
    case False
    show ?thesis
    proof (cases "d = c")
      case True
      then show ?thesis using reply_rejects(7) [OF False, of c s] by (auto simp: finished_def)
    next
      case False
      then show ?thesis using reply_rejects(8) [OF \<open>\<not> accepts r\<close>, of d c s] others [of d] by simp
    qed
  qed
  then have "inv_lock (reply c r s)" using nolock by (intro inv_lockI) simp_all
  then show ?thesis using reply by simp
qed

lemma inv_turn_step:
  assumes "inv_turn s" "inv_lock s" "inv_ids s"
  shows "inv_turn (step e s)"
proof (cases e s rule: step_cases)
  case idle
  then show ?thesis using assms by simp
next
  case (connect addr)
  then show ?thesis using assms by (simp add: inv_turn_def connect_fields)
next
  case (poll c r)
  then show ?thesis using assms by (simp add: inv_turn_def poll_fields)
next
  case (reply c r)
  have t: "turn s = c" using inv_lockD(1) [OF assms(2) reply(2)] by simp
  show ?thesis
  proof (cases "accepts r")
    case True
    have c: "c = (if even (length (accepted s)) then 1 else 2)"
      using t assms(1) by (simp add: inv_turn_def)
    have a: "accepted s = alternation (length (accepted s))"
      using assms(1) by (simp add: inv_turn_def)
    have "alternation (Suc (length (accepted s))) = accepted s @ [c]"
      using a c alternation_Suc [of "length (accepted s)"] by simp
    then show ?thesis using reply True c
      by (simp add: inv_turn_def reply_accepts)
  next
    case False
    then show ?thesis using reply assms(1) by (simp add: inv_turn_def reply_rejects)
  qed
qed

lemma inv_main_step:
  assumes "inv_main s" "inv_turn s" "inv_lock s" "inv_ids s"
  shows "inv_main (step e s)"
proof (cases e s rule: step_cases)
  case idle
  then show ?thesis using assms by simp
next
  case (connect addr)
  then show ?thesis using assms(1)
    by (auto simp add: inv_main_def connect_def split: main_pc.split)
next
  case (poll c r)
  then show ?thesis using assms(1)
    by (cases r) (auto simp add: inv_main_def poll_fields)
next
  case (reply c r)
  show ?thesis
  proof (cases "accepts r")
    case True
    have t: "turn s = c" using inv_lockD(1) [OF assms(3) reply(2)] by simp
    have "length (accepted s) = 0" if "hstatus s 2 = NotStarted"
    proof -
      have "c \<noteq> 2" using that reply(2) by auto
      moreover have "c = 1 \<or> c = 2" using assms(4) reply(2) by (simp add: inv_ids_def)
      ultimately have "turn s = 1" using t by simp
      then have "even (length (accepted s))" using assms(2) by (simp add: inv_turn_def split: if_splits)
      moreover have "length (accepted s) \<le> 1" using assms(1) that by (simp add: inv_main_def)
      ultimately show ?thesis by (cases "length (accepted s)") auto
    qed
    then show ?thesis using reply True assms(1)
      by (auto simp add: inv_main_def reply_accepts)
  next
    case False
    have f: "hstatus (reply c r s) c \<noteq> NotStarted"
      using reply_rejects(7) [OF False, of c s] by (auto simp: finished_def)
    have "(hstatus (reply c r s) d = NotStarted) = (hstatus s d = NotStarted)" for d
      using reply_rejects(8) [OF False, of d c s] f reply(2) by (cases "d = c") auto
    then show ?thesis using reply assms(1)
      by (simp add: inv_main_def reply_rejects(3,4) [OF False])
  qed
qed

lemma inv_init: "inv init_state"
  by (simp add: inv_def inv_ids_def inv_lock_def inv_turn_def inv_main_def init_state_def alternation_def)

lemma inv_step: "inv s \<Longrightarrow> inv (step e s)"
  by (simp add: inv_def inv_ids_step inv_lock_step inv_turn_step inv_main_step)

lemma inv_run: "inv s \<Longrightarrow> inv (run evs s)"
  unfolding run_def by (induction evs arbitrary: s) (simp_all add: inv_step)

lemma inv_reachable: "inv (run evs init_state)"
  by (rule inv_run [OF inv_init])

lemma run_snoc: "run (evs @ [e]) s = step e (run evs s)"
  by (simp add: run_def)

lemma step_effect:
  assumes "inv s"
  shows "(accepted (step e s) = accepted s \<and> turn (step e s) = turn s) \<or>
     (\<exists>c. accepted (step e s) = accepted s @ [c] \<and> turn s = c \<and> hstatus s c = AwaitReply \<and>
        turn (step e s) = (if c = 1 then 2 else 1) \<and> turn (step e s) \<noteq> turn s)"
proof (cases e s rule: step_cases)
  case idle
  then show ?thesis by simp
next
  case (connect addr)
  then show ?thesis by (simp add: connect_fields)
next
  case (poll c r)
  then show ?thesis by (simp add: poll_fields)
next
  case (reply c r)
  have l: "inv_lock s" "inv_ids s" using assms by (simp_all add: inv_def)
  have t: "turn s = c" using inv_lockD(1) [OF l(1) reply(2)] by simp
  have c: "c = 1 \<or> c = 2" using l(2) reply(2) by (simp add: inv_ids_def)
  show ?thesis
  proof (cases "accepts r")
    case True
    then show ?thesis using reply t c by (auto simp add: reply_accepts)
  next
    case False
    then show ?thesis using reply by (simp add: reply_rejects)
  qed
qed

subsection \<open>Alternation of the accepted identities\<close>

text \<open>
  Claim C1. Whatever happens in the server process from its start (connections,
  handler passes with any outcome of their socket calls, in any interleaving), the
  identities whose message was accepted are 1, 2, 1, 2, ... . Each further step either
  accepts nothing and leaves the turn as it is, or accepts one message, from the
  handler whose identity is the turn and who was waiting for it, and flips the turn
  to the other identity.
\<close>

theorem accepted_alternates:
  "accepted (run evs init_state) = alternation (length (accepted (run evs init_state))) \<and>
   (let s = run evs init_state; s' = step e s in
      (accepted s' = accepted s \<and> turn s' = turn s) \<or>
      (\<exists>c. accepted s' = accepted s @ [c] \<and> turn s = c \<and> hstatus s c = AwaitReply \<and>
         turn s' = (if c = 1 then 2 else 1) \<and> turn s' \<noteq> turn s))"
proof -
  have i: "inv (run evs init_state)" by (rule inv_reachable)
  then have "accepted (run evs init_state) = alternation (length (accepted (run evs init_state)))"
    by (simp add: inv_def inv_turn_def)
  then show ?thesis using step_effect [OF i, of e] by (simp add: Let_def)
qed

theorem accepted_alternates_witness:
  "accepted (run [Connect ''a'', Connect ''b'', Poll 1 (Inr ()), Reply 1 (Inr ''Client1:1''),
        Poll 2 (Inr ()), Reply 2 (Inr ''Client2:2''), Poll 2 (Inr ()), Poll 1 (Inr ())]
      init_state) = [1, 2]
   \<and> accepted (step (Reply 1 (Inr ''Client1:3''))
       (run [Connect ''a'', Connect ''b'', Poll 1 (Inr ()), Reply 1 (Inr ''Client1:1''),
          Poll 2 (Inr ()), Reply 2 (Inr ''Client2:2''), Poll 2 (Inr ()), Poll 1 (Inr ())]
        init_state)) = [1, 2, 1]"
  using accepted_alternates [of "[Connect ''a'', Connect ''b'', Poll 1 (Inr ()),
        Reply 1 (Inr ''Client1:1''), Poll 2 (Inr ()), Reply 2 (Inr ''Client2:2''),
        Poll 2 (Inr ()), Poll 1 (Inr ())]" "Reply 1 (Inr ''Client1:3'')"]
  by (simp add: run_def init_state_def connect_def poll_def reply_def unpack_pair_def)

subsection \<open>The turn after N accepted messages\<close>

text \<open>
  Claim C2. The turn is 1 when the server starts, and after any run of the process
  it is 1 if the number of messages accepted so far is even and 2 if it is odd.
\<close>

theorem turn_parity:
  "turn init_state = 1 \<and>
   turn (run evs init_state) = (if even (length (accepted (run evs init_state))) then 1 else 2)"
proof -
  have "inv_turn (run evs init_state)" using inv_reachable [of evs] by (simp add: inv_def)
  then show ?thesis by (simp add: inv_turn_def init_state_def)
qed

theorem turn_parity_witness:
  "turn (run [Connect ''a'', Poll 1 (Inr ()), Reply 1 (Inr ''Client1:1'')] init_state) = 2 \<and>
   accepted (run [Connect ''a'', Poll 1 (Inr ()), Reply 1 (Inr ''Client1:1'')] init_state) = [1]"
  using turn_parity [of "[Connect ''a'', Poll 1 (Inr ()), Reply 1 (Inr ''Client1:1'')]"]
  by (simp add: run_def init_state_def connect_def poll_def reply_def unpack_pair_def)

subsection \<open>When GO is sent\<close>

lemma step_wire:
  "wire (step e s) = wire s \<or>
   (\<exists>c. wire (step e s) = wire s @ [(c, ''WAIT'')] \<and> turn s \<noteq> c \<and> lock s = None \<and>
      lock (step e s) = None) \<or>
   (\<exists>c. wire (step e s) = wire s @ [(c, ''GO'')] \<and> turn s = c \<and> lock s = None \<and>
      hstatus s c = LoopTop \<and>
      lock (step e s) = Some c \<and> turn (step e s) = c \<and> hstatus (step e s) c = AwaitReply)"
proof (cases e s rule: step_cases)
  case idle
  then show ?thesis by simp
next
  case (connect addr)
  then show ?thesis by (simp add: connect_fields)
next
  case (poll c r)
  then show ?thesis by (cases r) (simp_all add: poll_fields)
next
  case (reply c r)
  then show ?thesis by (cases "accepts r") (simp_all add: reply_accepts reply_rejects)
qed

text \<open>
  Claim C3. In every reachable state, a step of the process sends at most one
  signal: WAIT to a handler whose identity is not the turn, or GO to the handler
  whose identity is the turn. GO is sent by a handler that has just taken the free
  lock; it keeps the lock, and the turn is still its identity, while it waits for the
  reply. In every reachable state a handler in that wait holds the lock and the
  turn is its identity.
\<close>

theorem go_only_on_turn:
  "(let s = run evs init_state; s' = step e s in
      wire s' = wire s \<or>
      (\<exists>c. wire s' = wire s @ [(c, ''WAIT'')] \<and> turn s \<noteq> c \<and> lock s = None \<and> lock s' = None) \<or>
      (\<exists>c. wire s' = wire s @ [(c, ''GO'')] \<and> turn s = c \<and> lock s = None \<and>
         hstatus s c = LoopTop \<and>
         lock s' = Some c \<and> turn s' = c \<and> hstatus s' c = AwaitReply)) \<and>
   (\<forall>c. hstatus (run evs init_state) c = AwaitReply \<longrightarrow>
      lock (run evs init_state) = Some c \<and> turn (run evs init_state) = c)"
proof (rule conjI)
  show "let s = run evs init_state; s' = step e s in
      wire s' = wire s \<or>
      (\<exists>c. wire s' = wire s @ [(c, ''WAIT'')] \<and> turn s \<noteq> c \<and> lock s = None \<and> lock s' = None) \<or>
      (\<exists>c. wire s' = wire s @ [(c, ''GO'')] \<and> turn s = c \<and> lock s = None \<and>
         hstatus s c = LoopTop \<and>
         lock s' = Some c \<and> turn s' = c \<and> hstatus s' c = AwaitReply)"
    unfolding Let_def by (rule step_wire)
next
  have "inv_lock (run evs init_state)" using inv_reachable [of evs] by (simp add: inv_def)
  then show "\<forall>c. hstatus (run evs init_state) c = AwaitReply \<longrightarrow>
      lock (run evs init_state) = Some c \<and> turn (run evs init_state) = c"
    using inv_lockD(1) by blast
qed

theorem go_only_on_turn_witness:
  "wire (step (Poll 1 (Inr ())) (run [Connect ''a'', Connect ''b''] init_state)) = [(1, ''GO'')] \<and>
   turn (run [Connect ''a'', Connect ''b''] init_state) = 1 \<and>
   hstatus (run [Connect ''a'', Connect ''b'', Poll 1 (Inr ())] init_state) 1 = AwaitReply \<and>
   lock (run [Connect ''a'', Connect ''b'', Poll 1 (Inr ())] init_state) = Some 1 \<and>
   turn (run [Connect ''a'', Connect ''b'', Poll 1 (Inr ())] init_state) = 1"
  using go_only_on_turn [of "[Connect ''a'', Connect ''b'']" "Poll 1 (Inr ())"]
    go_only_on_turn [of "[Connect ''a'', Connect ''b'', Poll 1 (Inr ())]" "Poll 1 (Inr ())"]
  by (simp add: run_def init_state_def connect_def poll_def)

subsection \<open>Ways a session ends\<close>

text \<open>
  Claim C5. When the read of the handler that waits for a reply returns nothing,
  the handler ends by its \<open>return\<close>: no exception, no line printed, the lock
  released, the main thread and every other handler where they were, turn and
  accepted messages unchanged.
\<close>

theorem empty_read_graceful:
  assumes "hstatus s c = AwaitReply"
  shows "hstatus (step (Reply c (Inr [])) s) c = Returned \<and>
    stdout (step (Reply c (Inr [])) s) = stdout s \<and>
    main (step (Reply c (Inr [])) s) = main s \<and>
    lock (step (Reply c (Inr [])) s) = None \<and>
    turn (step (Reply c (Inr [])) s) = turn s \<and>
    accepted (step (Reply c (Inr [])) s) = accepted s \<and>
    wire (step (Reply c (Inr [])) s) = wire s \<and>
    (\<forall>d. d \<noteq> c \<longrightarrow> hstatus (step (Reply c (Inr [])) s) d = hstatus s d)"
  using assms by (simp add: reply_def)

theorem empty_read_graceful_witness:
  "hstatus (run [Connect ''a'', Connect ''b'', Poll 1 (Inr ())] init_state) 1 = AwaitReply \<and>
   hstatus (step (Reply 1 (Inr [])) (run [Connect ''a'', Connect ''b'', Poll 1 (Inr ())] init_state)) 1 = Returned \<and>
   hstatus (step (Reply 1 (Inr [])) (run [Connect ''a'', Connect ''b'', Poll 1 (Inr ())] init_state)) 2 = LoopTop \<and>
   stdout (step (Reply 1 (Inr [])) (run [Connect ''a'', Connect ''b'', Poll 1 (Inr ())] init_state)) =
     [''Server listening on 0.0.0.0:5001'', ''Client1 a connected.'', ''Client2 b connected.'']"
proof -
  have h: "hstatus (run [Connect ''a'', Connect ''b'', Poll 1 (Inr ())] init_state) 1 = AwaitReply"
    by (simp add: run_def init_state_def connect_def poll_def)
  show ?thesis using empty_read_graceful [OF h]
    by (simp add: run_def init_state_def connect_def poll_def)
qed

text \<open>
  Claim C6. When a \<open>sendall\<close> (of GO or of WAIT) or the \<open>recv\<close> of a handler raises
  \<open>ConnectionResetError\<close> or \<open>BrokenPipeError\<close>, the handler prints its disconnect
  line and ends; the lock is free again, the main thread and every other handler
  are where they were, and the turn is unchanged.
\<close>

theorem disconnect_is_local:
  assumes "caught e"
    and "ev = Poll c (Inl e) \<and> hstatus s c = LoopTop \<and> lock s = None \<or>
         ev = Reply c (Inl e) \<and> hstatus s c = AwaitReply"
  shows "hstatus (step ev s) c = Disconnected \<and>
    stdout (step ev s) =
      stdout s @ [''Client '' @ str_int c @ '' ('' @ haddr s c @ '') disconnected.''] \<and>
    main (step ev s) = main s \<and>
    lock (step ev s) = None \<and>
    turn (step ev s) = turn s \<and>
    accepted (step ev s) = accepted s \<and>
    (\<forall>d. d \<noteq> c \<longrightarrow> hstatus (step ev s) d = hstatus s d)"
  using assms by (auto simp add: poll_def reply_def on_exception_def)

theorem disconnect_is_local_witness:
  "caught BrokenPipeError \<and>
   hstatus (run [Connect ''a'', Connect ''b''] init_state) 2 = LoopTop \<and>
   lock (run [Connect ''a'', Connect ''b''] init_state) = None \<and>
   hstatus (step (Poll 2 (Inl BrokenPipeError)) (run [Connect ''a'', Connect ''b''] init_state)) 2 = Disconnected \<and>
   hstatus (step (Poll 2 (Inl BrokenPipeError)) (run [Connect ''a'', Connect ''b''] init_state)) 1 = LoopTop \<and>
   stdout (step (Poll 2 (Inl BrokenPipeError)) (run [Connect ''a'', Connect ''b''] init_state)) =
     [''Server listening on 0.0.0.0:5001'', ''Client1 a connected.'', ''Client2 b connected.'',
      ''Client 2 (b) disconnected.'']"
proof -
  have c: "caught BrokenPipeError" by (simp add: caught_def)
  have h: "Poll 2 (Inl BrokenPipeError) = Poll 2 (Inl BrokenPipeError) \<and>
      hstatus (run [Connect ''a'', Connect ''b''] init_state) 2 = LoopTop \<and>
      lock (run [Connect ''a'', Connect ''b''] init_state) = None \<or>
      Poll 2 (Inl BrokenPipeError) = Reply 2 (Inl BrokenPipeError) \<and>
      hstatus (run [Connect ''a'', Connect ''b''] init_state) 2 = AwaitReply"
    by (simp add: run_def init_state_def connect_def)
  show ?thesis using disconnect_is_local [OF c h] c
    by (simp add: run_def init_state_def connect_def str_int_def str_nat.simps digit_char_def)
qed

lemma split_sep_absent: "c \<notin> set xs \<Longrightarrow> split_sep c xs = [xs]"
  by (induction xs) auto

text \<open>
  Claim C7. When the handler that waits for a reply reads a payload that is not
  empty and does not split on the colon into exactly two pieces (so, any payload
  without a colon), the unpacking raises \<open>ValueError\<close>, which the \<open>except\<close> clause
  does not name: that handler thread ends with it, nothing is printed, and the lock
  is released; the main thread, the other handler and the turn are unchanged.
\<close>

theorem malformed_payload_fatal:
  assumes "hstatus s c = AwaitReply" and "data \<noteq> []"
    and "CHR '':'' \<notin> set data \<or> length (split_sep (CHR '':'') data) \<noteq> 2"
  shows "unpack_pair data = Inl ValueError \<and> \<not> caught ValueError \<and>
    hstatus (step (Reply c (Inr data)) s) c = Died ValueError \<and>
    stdout (step (Reply c (Inr data)) s) = stdout s \<and>
    main (step (Reply c (Inr data)) s) = main s \<and>
    lock (step (Reply c (Inr data)) s) = None \<and>
    turn (step (Reply c (Inr data)) s) = turn s \<and>
    accepted (step (Reply c (Inr data)) s) = accepted s \<and>
    (\<forall>d. d \<noteq> c \<longrightarrow> hstatus (step (Reply c (Inr data)) s) d = hstatus s d)"
proof -
  have "length (split_sep (CHR '':'') data) \<noteq> 2"
    using assms(3) split_sep_absent [of "CHR '':''" data] by auto
  then have u: "unpack_pair data = Inl ValueError" by (rule unpack_pair_cases(2))
  have n: "\<not> caught ValueError" by (simp add: caught_def)
  show ?thesis using assms(1,2) u n by (simp add: reply_def on_exception_def)
qed

theorem malformed_payload_fatal_witness:
  "hstatus (run [Connect ''a'', Connect ''b'', Poll 1 (Inr ())] init_state) 1 = AwaitReply \<and>
   CHR '':'' \<notin> set ''Client1 1'' \<and>
   hstatus (step (Reply 1 (Inr ''Client1 1'')) (run [Connect ''a'', Connect ''b'', Poll 1 (Inr ())] init_state)) 1 = Died ValueError \<and>
   hstatus (step (Reply 1 (Inr ''Client1 1'')) (run [Connect ''a'', Connect ''b'', Poll 1 (Inr ())] init_state)) 2 = LoopTop \<and>
   turn (step (Reply 1 (Inr ''Client1 1'')) (run [Connect ''a'', Connect ''b'', Poll 1 (Inr ())] init_state)) = 1"
proof -
  have h: "hstatus (run [Connect ''a'', Connect ''b'', Poll 1 (Inr ())] init_state) 1 = AwaitReply"
    by (simp add: run_def init_state_def connect_def poll_def)
  have d: "''Client1 1'' \<noteq> []" by simp
  have n: "CHR '':'' \<notin> set ''Client1 1'' \<or> length (split_sep (CHR '':'') ''Client1 1'') \<noteq> 2"
    by simp
  show ?thesis using malformed_payload_fatal [OF h d n]
    by (simp add: run_def init_state_def connect_def poll_def)
qed

subsection \<open>The turn after a session has ended\<close>

lemma finished_stays:
  assumes "inv_main s" "finished (hstatus s c)"
  shows "hstatus (step e s) c = hstatus s c"
proof (cases e s rule: step_cases)
  case idle
  then show ?thesis by simp
next
  case (connect addr)
  show ?thesis
  proof (cases "main s")
    case Accept1
    then have "hstatus s 1 = NotStarted" using assms(1) by (simp add: inv_main_def)
    then have "c \<noteq> 1" using assms(2) by (auto simp: finished_def)
    then show ?thesis using connect Accept1 by (simp add: connect_def)
  next
    case Accept2
    then have "hstatus s 2 = NotStarted" using assms(1) by (simp add: inv_main_def)
    then have "c \<noteq> 2" using assms(2) by (auto simp: finished_def)
    then show ?thesis using connect Accept2 by (simp add: connect_def)
  next
    case MainDone
    then show ?thesis using connect by (simp add: connect_def)
  qed
next
  case (poll d r)
  then have "c \<noteq> d" using assms(2) by (auto simp: finished_def)
  then show ?thesis using poll by (cases r) (simp_all add: poll_fields)
next
  case (reply d r)
  then have "c \<noteq> d" using assms(2) by (auto simp: finished_def)
  then show ?thesis using reply
    by (cases "accepts r") (simp_all add: reply_accepts reply_rejects)
qed

lemma stuck_step:
  assumes "inv s" "finished (hstatus s (turn s))"
  shows "inv (step e s) \<and> turn (step e s) = turn s \<and> finished (hstatus (step e s) (turn (step e s))) \<and>
    accepted (step e s) = accepted s \<and>
    (wire (step e s) = wire s \<or> (\<exists>c. wire (step e s) = wire s @ [(c, ''WAIT'')]))"
proof -
  have na: "hstatus s (turn s) \<noteq> AwaitReply" "hstatus s (turn s) \<noteq> LoopTop"
    using assms(2) by (auto simp: finished_def)
  have a: "accepted (step e s) = accepted s \<and> turn (step e s) = turn s"
    using step_effect [OF assms(1), of e] na(1) by auto
  have f: "hstatus (step e s) (turn s) = hstatus s (turn s)"
    using finished_stays [OF _ assms(2)] assms(1) by (simp add: inv_def)
  have w: "wire (step e s) = wire s \<or> (\<exists>c. wire (step e s) = wire s @ [(c, ''WAIT'')])"
    using step_wire [of e s] na(2) by auto
  show ?thesis using a f w assms inv_step [of s e] by simp
qed

lemma stuck_run:
  assumes "inv s" "finished (hstatus s (turn s))"
  shows "turn (run evs s) = turn s \<and> accepted (run evs s) = accepted s \<and>
    (\<exists>ws. wire (run evs s) = wire s @ ws \<and> (\<forall>x\<in>set ws. snd x = ''WAIT''))"
  using assms
proof (induction evs arbitrary: s)
  case Nil
  then show ?case by (simp add: run_def)
next
  case (Cons e evs)
  have r: "run (e # evs) s = run evs (step e s)" by (simp add: run_def)
  note st = stuck_step [OF Cons.prems, of e]
  from st have i1: "inv (step e s)" and f1: "finished (hstatus (step e s) (turn (step e s)))"
    by blast+
  note ih = Cons.IH [OF i1 f1]
  then obtain ws where ws: "wire (run evs (step e s)) = wire (step e s) @ ws"
    "\<forall>x\<in>set ws. snd x = ''WAIT''" by blast
  from st obtain ws0 where ws0: "wire (step e s) = wire s @ ws0" "\<forall>x\<in>set ws0. snd x = ''WAIT''"
    by auto
  have "wire (run evs (step e s)) = wire s @ (ws0 @ ws) \<and> (\<forall>x\<in>set (ws0 @ ws). snd x = ''WAIT'')"
    using ws ws0 by auto
  then have "\<exists>ws. wire (run evs (step e s)) = wire s @ ws \<and> (\<forall>x\<in>set ws. snd x = ''WAIT'')"
    by blast
  then show ?case using ih st r by simp
qed

text \<open>
  Claim C10. A step in which a handler ends, on whichever path, leaves the turn as
  it is. And once the handler whose identity is the turn has ended, in a reachable
  state, nothing that happens afterwards changes the turn or accepts a message, and
  every signal sent from then on is WAIT.
\<close>

theorem termination_keeps_turn:
  "(\<not> finished (hstatus s c) \<and> finished (hstatus (step ev s) c) \<longrightarrow> turn (step ev s) = turn s) \<and>
   (finished (hstatus (run evs init_state) (turn (run evs init_state))) \<longrightarrow>
      turn (run evs' (run evs init_state)) = turn (run evs init_state) \<and>
      accepted (run evs' (run evs init_state)) = accepted (run evs init_state) \<and>
      (\<exists>ws. wire (run evs' (run evs init_state)) = wire (run evs init_state) @ ws \<and>
         (\<forall>x\<in>set ws. snd x = ''WAIT'')))"
proof -
  have one: "turn (step ev s) = turn s"
    if "\<not> finished (hstatus s c)" "finished (hstatus (step ev s) c)"
  proof (cases ev s rule: step_cases)
    case idle
    then show ?thesis by simp
  next
    case (connect addr)
    then show ?thesis by (simp add: connect_fields)
  next
    case (poll d r)
    then show ?thesis by (simp add: poll_fields)
  next
    case (reply d r)
    show ?thesis
    proof (cases "accepts r")
      case True
      have "hstatus (step ev s) c = hstatus s c \<or> hstatus (step ev s) c = LoopTop"
        using reply True by (cases "c = d") (simp_all add: reply_accepts)
      then have False using that by (auto simp: finished_def)
      then show ?thesis ..
    next
      case False
      then show ?thesis using reply by (simp add: reply_rejects)
    qed
  qed
  show ?thesis using one stuck_run [OF inv_reachable, of evs evs'] by blast
qed

theorem termination_keeps_turn_witness:
  "\<not> finished (hstatus (run [Connect ''a'', Connect ''b'', Poll 1 (Inr ())] init_state) 1) \<and>
   finished (hstatus (step (Reply 1 (Inr [])) (run [Connect ''a'', Connect ''b'', Poll 1 (Inr ())] init_state)) 1) \<and>
   turn (step (Reply 1 (Inr [])) (run [Connect ''a'', Connect ''b'', Poll 1 (Inr ())] init_state)) = 1 \<and>
   finished (hstatus (run [Connect ''a'', Connect ''b'', Poll 1 (Inr ()), Reply 1 (Inr [])] init_state)
      (turn (run [Connect ''a'', Connect ''b'', Poll 1 (Inr ()), Reply 1 (Inr [])] init_state))) \<and>
   turn (run [Poll 2 (Inr ()), Poll 2 (Inr ())]
      (run [Connect ''a'', Connect ''b'', Poll 1 (Inr ()), Reply 1 (Inr [])] init_state)) = 1 \<and>
   wire (run [Poll 2 (Inr ()), Poll 2 (Inr ())]
      (run [Connect ''a'', Connect ''b'', Poll 1 (Inr ()), Reply 1 (Inr [])] init_state)) =
     [(1, ''GO''), (2, ''WAIT''), (2, ''WAIT'')]"
  using termination_keeps_turn [of "run [Connect ''a'', Connect ''b'', Poll 1 (Inr ())] init_state" 1
      "Reply 1 (Inr [])" "[Connect ''a'', Connect ''b'', Poll 1 (Inr ()), Reply 1 (Inr [])]"
      "[Poll 2 (Inr ()), Poll 2 (Inr ())]"]
  by (simp add: run_def init_state_def connect_def poll_def reply_def finished_def)

subsection \<open>The two accepts\<close>

lemma arrivals_append: "arrivals (xs @ ys) = arrivals xs @ arrivals ys"
  by (induction xs rule: arrivals.induct) simp_all

lemma step_main_haddr:
  "(\<exists>addr. e = Connect addr \<and> step e s = connect addr s) \<or>
   (arrivals [e] = [] \<and> main (step e s) = main s \<and> haddr (step e s) = haddr s)"
proof (cases e s rule: step_cases)
  case idle
  then show ?thesis by (cases e) simp_all
next
  case (connect addr)
  then show ?thesis by simp
next
  case (poll c r)
  then show ?thesis by (simp add: poll_fields)
next
  case (reply c r)
  then show ?thesis by (cases "accepts r") (simp_all add: reply_accepts reply_rejects)
qed

lemma accept_inv_run: "accept_inv evs (run evs init_state)"
proof (induction evs rule: rev_induct)
  case Nil
  then show ?case by (simp add: accept_inv_def run_def init_state_def)
next
  case (snoc e evs)
  let ?s = "run evs init_state"
  from step_main_haddr [of e ?s] show ?case
  proof
    assume "\<exists>addr. e = Connect addr \<and> step e ?s = connect addr ?s"
    then obtain addr where e: "e = Connect addr" "step e ?s = connect addr ?s" by blast
    have ar: "arrivals (evs @ [e]) = arrivals evs @ [addr]" using e by (simp add: arrivals_append)
    show ?thesis
    proof (cases "arrivals evs")
      case Nil
      then have "main ?s = Accept1" using snoc by (simp add: accept_inv_def)
      then show ?thesis using e ar Nil
        by (simp add: accept_inv_def run_snoc connect_def)
    next
      case (Cons a as)
      show ?thesis
      proof (cases as)
        case Nil
        then have "main ?s = Accept2" "haddr ?s 1 = a" using snoc Cons by (simp_all add: accept_inv_def)
        then show ?thesis using e ar Cons Nil
          by (simp add: accept_inv_def run_snoc connect_def)
      next
        case (Cons b bs)
        then have "main ?s = MainDone" "haddr ?s 1 = a" "haddr ?s 2 = b"
          using snoc \<open>arrivals evs = a # as\<close> by (simp_all add: accept_inv_def)
        then show ?thesis using e ar Cons \<open>arrivals evs = a # as\<close>
          by (simp add: accept_inv_def run_snoc connect_def)
      qed
    qed
  next
    assume a: "arrivals [e] = [] \<and> main (step e ?s) = main ?s \<and> haddr (step e ?s) = haddr ?s"
    then have "arrivals (evs @ [e]) = arrivals evs" by (simp add: arrivals_append)
    then show ?thesis using a snoc by (simp add: accept_inv_def run_snoc)
  qed
qed

text \<open>
  Claim C8, as the spec states it, fails: with one connection only, \<open>server()\<close>
  is blocked in its second \<open>accept\<close>, but handler 1 was started right after the
  first one (line 45), finds the turn at 1, sends GO and accepts a message.
\<close>

theorem single_client_counterexample:
  "arrivals [Connect ''a'', Poll 1 (Inr ()), Reply 1 (Inr ''Client1:1'')] = [''a''] \<and>
   main (run [Connect ''a'', Poll 1 (Inr ()), Reply 1 (Inr ''Client1:1'')] init_state) = Accept2 \<and>
   accepted (run [Connect ''a'', Poll 1 (Inr ()), Reply 1 (Inr ''Client1:1'')] init_state) = [1] \<and>
   wire (run [Connect ''a'', Poll 1 (Inr ()), Reply 1 (Inr ''Client1:1'')] init_state) = [(1, ''GO'')] \<and>
   stdout (run [Connect ''a'', Poll 1 (Inr ()), Reply 1 (Inr ''Client1:1'')] init_state) =
     [''Server listening on 0.0.0.0:5001'', ''Client1 a connected.'', ''Client1 sent: 1'']"
  by (simp add: run_def init_state_def connect_def poll_def reply_def unpack_pair_def)

text \<open>
  Claim C8, amended. \<open>server()\<close> is in its first \<open>accept\<close> until a connection
  arrives, in its second one until another arrives, and past both after that: it
  accepts two connections and no more. The handlers started are those of the first
  two connections, with identities 1 and 2 in the order of arrival, and no handler of
  another identity is ever started. While only one connection has arrived,
  \<open>server()\<close> is blocked in the second \<open>accept\<close>, handler 2 is not started, and at
  most one message has been accepted, from participant 1.
\<close>

theorem two_accepts:
  "main (run evs init_state) =
     (if arrivals evs = [] then Accept1
      else if length (arrivals evs) = 1 then Accept2 else MainDone) \<and>
   [(c, haddr (run evs init_state) c). c \<leftarrow> [1, 2], hstatus (run evs init_state) c \<noteq> NotStarted] =
     zip [1, 2] (arrivals evs) \<and>
   (\<forall>c. c \<noteq> 1 \<and> c \<noteq> 2 \<longrightarrow> hstatus (run evs init_state) c = NotStarted) \<and>
   (length (arrivals evs) = 1 \<longrightarrow>
      main (run evs init_state) = Accept2 \<and> hstatus (run evs init_state) 2 = NotStarted \<and>
      (accepted (run evs init_state) = [] \<or> accepted (run evs init_state) = [1]))"
proof -
  let ?s = "run evs init_state"
  have i: "inv_ids ?s" "inv_main ?s" "inv_turn ?s" using inv_reachable [of evs] by (simp_all add: inv_def)
  have a: "accept_inv evs ?s" by (rule accept_inv_run)
  then have m: "main ?s = (if arrivals evs = [] then Accept1
      else if length (arrivals evs) = 1 then Accept2 else MainDone)"
    by (simp add: accept_inv_def)
  have h1: "(hstatus ?s 1 = NotStarted) = (arrivals evs = [])"
    using i(2) m by (simp add: inv_main_def)
  have h2: "(hstatus ?s 2 = NotStarted) = (length (arrivals evs) < 2)"
    using i(2) m by (cases "arrivals evs") (auto simp add: inv_main_def)
  have z: "[(c, haddr ?s c). c \<leftarrow> [1, 2], hstatus ?s c \<noteq> NotStarted] = zip [1, 2] (arrivals evs)"
  proof (cases "arrivals evs")
    case Nil
    then show ?thesis using h1 h2 by simp
  next
    case (Cons x xs)
    then have x: "haddr ?s 1 = x" using a by (simp add: accept_inv_def)
    show ?thesis
    proof (cases xs)
      case Nil
      then show ?thesis using Cons h1 h2 x by simp
    next
      case (Cons y ys)
      then have "haddr ?s 2 = y" using a \<open>arrivals evs = x # xs\<close> by (simp add: accept_inv_def)
      then show ?thesis using Cons \<open>arrivals evs = x # xs\<close> h1 h2 x by simp
    qed
  qed
  have o: "\<forall>c. c \<noteq> 1 \<and> c \<noteq> 2 \<longrightarrow> hstatus ?s c = NotStarted"
    using i(1) unfolding inv_ids_def by blast
  have one: "main ?s = Accept2 \<and> hstatus ?s 2 = NotStarted \<and> (accepted ?s = [] \<or> accepted ?s = [1])"
    if l: "length (arrivals evs) = 1"
  proof -
    have n: "hstatus ?s 2 = NotStarted" using h2 l by simp
    then have "length (accepted ?s) \<le> 1" using i(2) by (simp add: inv_main_def)
    then have "length (accepted ?s) = 0 \<or> length (accepted ?s) = 1" by linarith
    moreover have "accepted ?s = alternation (length (accepted ?s))" using i(3) by (simp add: inv_turn_def)
    ultimately have "accepted ?s = alternation 0 \<or> accepted ?s = alternation 1" by metis
    then have "accepted ?s = [] \<or> accepted ?s = [1]" by (simp add: alternation_def)
    then show ?thesis using n m l by auto
  qed
  show ?thesis using m z o one by blast
qed

theorem two_accepts_witness:
  "length (arrivals [Connect ''a'', Poll 1 (Inr ()), Reply 1 (Inr ''Client1:1''), Poll 1 (Inr ())]) = 1 \<and>
   main (run [Connect ''a'', Poll 1 (Inr ()), Reply 1 (Inr ''Client1:1''), Poll 1 (Inr ())] init_state) = Accept2 \<and>
   accepted (run [Connect ''a'', Poll 1 (Inr ()), Reply 1 (Inr ''Client1:1''), Poll 1 (Inr ())] init_state) = [1] \<and>
   hstatus (run [Connect ''a'', Poll 1 (Inr ()), Reply 1 (Inr ''Client1:1''), Poll 1 (Inr ())] init_state) 2 = NotStarted"
  using two_accepts [of "[Connect ''a'', Poll 1 (Inr ()), Reply 1 (Inr ''Client1:1''), Poll 1 (Inr ())]"]
  by (simp add: run_def init_state_def connect_def poll_def reply_def unpack_pair_def)

subsection \<open>The client and a signal it does not know\<close>

text \<open>
  Claim C9. When the client reads anything other than GO or WAIT, the empty
  string of a closed connection in particular, the pass of its loop changes nothing:
  nothing is sent, no sleep is added, the counter is the same, no exception ends the
  thread, and the loop is back at its read. So any number of such reads, one after
  the other, leaves the client running in the state it had.
\<close>

theorem unknown_signal_ignored:
  "(response \<noteq> ''GO'' \<and> response \<noteq> ''WAIT'' \<longrightarrow>
      client_iter client_name (Inr response) sr cs = Inr cs) \<and>
   ((\<forall>io\<in>set ios. \<exists>r. fst io = Inr r \<and> r \<noteq> ''GO'' \<and> r \<noteq> ''WAIT'') \<longrightarrow>
      client_loop client_name ios cs = Inr cs) \<and>
   client_loop client_name (replicate n (Inr [], sr)) cs = Inr cs"
proof -
  have one: "client_iter client_name (Inr r) x cs = Inr cs" if "r \<noteq> ''GO''" "r \<noteq> ''WAIT''" for r x
    using that by (simp add: client_iter_def)
  have many: "client_loop client_name l cs = Inr cs"
    if "\<forall>io\<in>set l. \<exists>r. fst io = Inr r \<and> r \<noteq> ''GO'' \<and> r \<noteq> ''WAIT''" for l
    using that
  proof (induction l)
    case Nil
    then show ?case by simp
  next
    case (Cons io l)
    obtain rr x where io: "io = (rr, x)" by (cases io)
    then obtain r where "rr = Inr r" "r \<noteq> ''GO''" "r \<noteq> ''WAIT''" using Cons.prems by auto
    then show ?case using io one [of r x] Cons by simp
  qed
  have "client_loop client_name (replicate n (Inr [], sr)) cs = Inr cs"
    by (rule many) simp
  then show ?thesis using one many by blast
qed

theorem unknown_signal_ignored_witness:
  "client_iter ''Client1'' (Inr []) (Inr ()) (client_init 1) = Inr (client_init 1) \<and>
   client_loop ''Client1'' [(Inr [], Inr ()), (Inr ''WAITWAIT'', Inr ()), (Inr [], Inr ())] (client_init 1) =
     Inr (client_init 1) \<and>
   outbox (client_init 1) = [] \<and> slept (client_init 1) = 0"
  using unknown_signal_ignored [of "[]" "''Client1''" "Inr ()" "client_init 1"
      "[(Inr [], Inr ()), (Inr ''WAITWAIT'', Inr ()), (Inr [], Inr ())]" 0]
  by (simp add: client_init_def client_iter_def)

subsection \<open>The transmitted sequence\<close>
























































end
